theory Spec2Isabelle
  imports Complex_Main "HOL-Library.List_Lexorder"
begin

section \<open>Python values\<close>

text \<open>
  A Python \<open>str\<close> is a sequence of Unicode code points, so it is modelled as a list of
  natural numbers; \<open>ascii\<close> turns an ASCII literal of the source into that form.
  Numbers (\<open>int\<close> and \<open>float\<close> alike) are modelled as exact reals: rounding of binary
  floating point, infinities and NaN are outside the model. A segment is a \<open>dict\<close>, a
  finite map from keys to values; only the two kinds of value the pipeline stores in a
  segment are modelled.

  Exceptions are values of the type \<open>error\<close>. \<open>Unmodelled\<close> is not an exception of
  the program: it marks the one place where the source goes on with a value the model
  cannot build, the decimal text of a number that stands where a speaker label is
  expected.
\<close>

type_synonym pystr = "nat list"

definition ascii :: "string \<Rightarrow> pystr" where
  "ascii s = map of_char s"

datatype pyval = PNum real | PStr pystr

type_synonym pydict = "pystr \<rightharpoonup> pyval"

datatype error =
    KeyError pystr
  | TypeError
  | AttributeError
  | IndexError
  | ValueError
  | Unmodelled

definition bind_err :: "error + 'a \<Rightarrow> ('a \<Rightarrow> error + 'b) \<Rightarrow> error + 'b" where
  "bind_err m f = (case m of Inl e \<Rightarrow> Inl e | Inr x \<Rightarrow> f x)"

text \<open>A \<open>for\<close> loop whose body may raise: the body is run on each element in turn and
  the first exception ends the loop.\<close>

fun for_each :: "('a \<Rightarrow> 's \<Rightarrow> error + 's) \<Rightarrow> 'a list \<Rightarrow> 's \<Rightarrow> error + 's" where
  "for_each body [] s = Inr s"
| "for_each body (x # xs) s = bind_err (body x s) (for_each body xs)"

definition k_start :: pystr where "k_start = ascii ''start''"
definition k_end :: pystr where "k_end = ascii ''end''"
definition k_text :: pystr where "k_text = ascii ''text''"
definition k_speaker :: pystr where "k_speaker = ascii ''speaker''"
definition k_translation :: pystr where "k_translation = ascii ''translation''"

definition UNKNOWN :: pystr where "UNKNOWN = ascii ''UNKNOWN''"
definition SPEAKER_00 :: pystr where "SPEAKER_00 = ascii ''SPEAKER_00''"

text \<open>\<open>d[k]\<close>: raises \<open>KeyError\<close> on a missing key.\<close>

definition getitem :: "pydict \<Rightarrow> pystr \<Rightarrow> error + pyval" where
  "getitem d k = (case d k of None \<Rightarrow> Inl (KeyError k) | Some v \<Rightarrow> Inr v)"

text \<open>\<open>d.get(k, default)\<close>.\<close>

definition get_default :: "pydict \<Rightarrow> pystr \<Rightarrow> pyval \<Rightarrow> pyval" where
  "get_default d k dflt = (case d k of None \<Rightarrow> dflt | Some v \<Rightarrow> v)"

text \<open>\<open>max(a, b)\<close> and \<open>min(a, b)\<close> of two values: numbers compare with numbers, strings
  with strings (by code point), a mixed pair raises \<open>TypeError\<close>. On a tie Python returns
  its first argument.\<close>

definition py_max :: "pyval \<Rightarrow> pyval \<Rightarrow> error + pyval" where
  "py_max a b = (case (a, b) of
       (PNum x, PNum y) \<Rightarrow> Inr (PNum (if y > x then y else x))
     | (PStr s, PStr t) \<Rightarrow> Inr (PStr (if t > s then t else s))
     | _ \<Rightarrow> Inl TypeError)"

definition py_min :: "pyval \<Rightarrow> pyval \<Rightarrow> error + pyval" where
  "py_min a b = (case (a, b) of
       (PNum x, PNum y) \<Rightarrow> Inr (PNum (if y < x then y else x))
     | (PStr s, PStr t) \<Rightarrow> Inr (PStr (if t < s then t else s))
     | _ \<Rightarrow> Inl TypeError)"

text \<open>\<open>a - b\<close>: defined on numbers only.\<close>

definition py_sub :: "pyval \<Rightarrow> pyval \<Rightarrow> error + real" where
  "py_sub a b = (case (a, b) of (PNum x, PNum y) \<Rightarrow> Inr (x - y) | _ \<Rightarrow> Inl TypeError)"


section \<open>Objects and mutation\<close>

text \<open>
  Segments are \<open>dict\<close> objects that the code copies and updates in place, so they live in
  a store: a list of dicts, an address being an index into it. A new object is appended,
  so its address is the old length of the store and is different from every address in
  use. A program takes the store and returns its result, or the exception it raised,
  together with the store it leaves behind. Python lists are modelled as values (lists
  of addresses): the functions below only iterate over and slice the lists they are
  given, and append only to lists they have created themselves.
\<close>

type_synonym addr = nat
type_synonym heap = "pydict list"
type_synonym 'a prog = "heap \<Rightarrow> (error + 'a) \<times> heap"

definition ret :: "'a \<Rightarrow> 'a prog" where
  "ret x = (\<lambda>h. (Inr x, h))"

definition lift :: "error + 'a \<Rightarrow> 'a prog" where
  "lift m = (\<lambda>h. (m, h))"

definition bind_p :: "'a prog \<Rightarrow> ('a \<Rightarrow> 'b prog) \<Rightarrow> 'b prog" where
  "bind_p m f = (\<lambda>h. case m h of (Inl e, h') \<Rightarrow> (Inl e, h') | (Inr x, h') \<Rightarrow> f x h')"

fun for_each_p :: "('a \<Rightarrow> 's \<Rightarrow> 's prog) \<Rightarrow> 'a list \<Rightarrow> 's \<Rightarrow> 's prog" where
  "for_each_p body [] s = ret s"
| "for_each_p body (x # xs) s = bind_p (body x s) (for_each_p body xs)"

text \<open>A dict literal \<open>{...}\<close> creates a new object.\<close>

definition alloc :: "pydict \<Rightarrow> addr prog" where
  "alloc d = (\<lambda>h. (Inr (length h), h @ [d]))"

text \<open>\<open>seg.copy()\<close>: a new object with the keys and values of \<open>seg\<close>.\<close>

definition copy_at :: "addr \<Rightarrow> addr prog" where
  "copy_at a = (\<lambda>h. (Inr (length h), h @ [h ! a]))"

text \<open>\<open>seg[k]\<close> and \<open>seg[k] = v\<close> on the object at an address.\<close>

definition getitem_at :: "addr \<Rightarrow> pystr \<Rightarrow> pyval prog" where
  "getitem_at a k = (\<lambda>h. (getitem (h ! a) k, h))"

definition setitem_at :: "addr \<Rightarrow> pystr \<Rightarrow> pyval \<Rightarrow> unit prog" where
  "setitem_at a k v = (\<lambda>h. (Inr (), h[a := (h ! a)(k \<mapsto> v)]))"

section \<open>core/merger.py\<close>

subsection \<open>find_best_speaker\<close>

text \<open>The body of the loop of \<open>find_best_speaker\<close>; the state is the pair
  \<open>(best_speaker, best_overlap)\<close>. The speaker of a turn is read only when the turn
  wins.\<close>

definition best_speaker_step :: "pyval \<Rightarrow> pyval \<Rightarrow> pydict \<Rightarrow> pyval \<times> real \<Rightarrow> error + (pyval \<times> real)" where
  "best_speaker_step trans_start trans_end d_seg st =
     bind_err (getitem d_seg k_start) (\<lambda>d_start.
     bind_err (py_max trans_start d_start) (\<lambda>overlap_start.
     bind_err (getitem d_seg k_end) (\<lambda>d_end.
     bind_err (py_min trans_end d_end) (\<lambda>overlap_end.
     bind_err (py_sub overlap_end overlap_start) (\<lambda>diff.
       let overlap = max 0 diff in
       if overlap > snd st
       then bind_err (getitem d_seg k_speaker) (\<lambda>sp. Inr (sp, overlap))
       else Inr st)))))"

definition find_best_speaker :: "pyval \<Rightarrow> pyval \<Rightarrow> pydict list \<Rightarrow> error + pyval" where
  "find_best_speaker trans_start trans_end diarization_segments =
     bind_err (for_each (best_speaker_step trans_start trans_end) diarization_segments
                 (PStr UNKNOWN, 0))
       (\<lambda>st. Inr (fst st))"

text \<open>A well-formed speaker turn has numeric \<open>start\<close> and \<open>end\<close> and a \<open>speaker\<close>.\<close>

definition is_turn :: "pydict \<Rightarrow> bool" where
  "is_turn d = ((case d k_start of Some (PNum _) \<Rightarrow> True | _ \<Rightarrow> False)
              \<and> (case d k_end of Some (PNum _) \<Rightarrow> True | _ \<Rightarrow> False)
              \<and> d k_speaker \<noteq> None)"

definition num_at :: "pydict \<Rightarrow> pystr \<Rightarrow> real" where
  "num_at d k = (case d k of Some (PNum x) \<Rightarrow> x | _ \<Rightarrow> 0)"

definition val_at :: "pydict \<Rightarrow> pystr \<Rightarrow> pyval" where
  "val_at d k = (case d k of Some v \<Rightarrow> v | None \<Rightarrow> PStr [])"

text \<open>The overlap of the interval \<open>[ts, te]\<close> with a turn, in the words of the
  specification: \<open>max(0, min(text.end, turn.end) - max(text.start, turn.start))\<close>.\<close>

definition overlap :: "real \<Rightarrow> real \<Rightarrow> pydict \<Rightarrow> real" where
  "overlap ts te turn = max 0 (min te (num_at turn k_end) - max ts (num_at turn k_start))"

lemma best_speaker_step_turn:
  assumes "is_turn d"
  shows "best_speaker_step (PNum ts) (PNum te) d (bs, bo) =
           Inr (if overlap ts te d > bo then (val_at d k_speaker, overlap ts te d) else (bs, bo))"
proof -
  from assms obtain s e sp where d: "d k_start = Some (PNum s)" "d k_end = Some (PNum e)"
      "d k_speaker = Some sp"
    by (auto simp: is_turn_def split: option.splits pyval.splits)
  have m1: "(if s > ts then s else ts) = max ts s" by (simp add: max_def)
  have m2: "(if e < te then e else te) = min te e" by (simp add: min_def)
  show ?thesis
    using d
    by (simp add: best_speaker_step_def getitem_def bind_err_def py_max_def py_min_def
        py_sub_def overlap_def num_at_def val_at_def Let_def m1 m2)
qed

lemma for_each_best_speaker:
  assumes "\<forall>d \<in> set ds. is_turn d"
  shows "\<exists>bs' bo'. for_each (best_speaker_step (PNum ts) (PNum te)) ds (bs, bo) = Inr (bs', bo')
     \<and> ((\<forall>i < length ds. overlap ts te (ds ! i) \<le> bo) \<longrightarrow> bs' = bs \<and> bo' = bo)
     \<and> ((\<exists>i < length ds. overlap ts te (ds ! i) > bo) \<longrightarrow>
          (\<exists>i < length ds. bs' = val_at (ds ! i) k_speaker \<and> bo' = overlap ts te (ds ! i)
             \<and> overlap ts te (ds ! i) > bo
             \<and> (\<forall>j < length ds. overlap ts te (ds ! j) \<le> overlap ts te (ds ! i))
             \<and> (\<forall>j < i. overlap ts te (ds ! j) < overlap ts te (ds ! i))))"
  using assms
proof (induction ds arbitrary: bs bo)
  case Nil
  then show ?case by simp
next
  case (Cons d ds)
  let ?ov = "overlap ts te"
  have turn: "is_turn d" and rest: "\<forall>d \<in> set ds. is_turn d" using Cons.prems by auto
  show ?case
  proof (cases "?ov d > bo")
    case False
    from Cons.IH[OF rest, of bs bo] obtain bs' bo' where
      run: "for_each (best_speaker_step (PNum ts) (PNum te)) ds (bs, bo) = Inr (bs', bo')"
      and none: "(\<forall>i < length ds. ?ov (ds ! i) \<le> bo) \<longrightarrow> bs' = bs \<and> bo' = bo"
      and some: "(\<exists>i < length ds. ?ov (ds ! i) > bo) \<longrightarrow>
          (\<exists>i < length ds. bs' = val_at (ds ! i) k_speaker \<and> bo' = ?ov (ds ! i)
             \<and> ?ov (ds ! i) > bo
             \<and> (\<forall>j < length ds. ?ov (ds ! j) \<le> ?ov (ds ! i))
             \<and> (\<forall>j < i. ?ov (ds ! j) < ?ov (ds ! i)))"
      by blast
    have step: "for_each (best_speaker_step (PNum ts) (PNum te)) (d # ds) (bs, bo) = Inr (bs', bo')"
      using False run by (simp add: best_speaker_step_turn[OF turn] bind_err_def)
    have A: "(\<forall>i < length (d # ds). ?ov ((d # ds) ! i) \<le> bo) \<longrightarrow> bs' = bs \<and> bo' = bo"
    proof
      assume a: "\<forall>i < length (d # ds). ?ov ((d # ds) ! i) \<le> bo"
      have "\<forall>i < length ds. ?ov (ds ! i) \<le> bo"
      proof (intro allI impI)
        fix i assume "i < length ds"
        then have "Suc i < length (d # ds)" by simp
        with a have "?ov ((d # ds) ! Suc i) \<le> bo" by blast
        then show "?ov (ds ! i) \<le> bo" by simp
      qed
      with none show "bs' = bs \<and> bo' = bo" by blast
    qed
    have B: "(\<exists>i < length (d # ds). ?ov ((d # ds) ! i) > bo) \<longrightarrow>
          (\<exists>i < length (d # ds). bs' = val_at ((d # ds) ! i) k_speaker \<and> bo' = ?ov ((d # ds) ! i)
             \<and> ?ov ((d # ds) ! i) > bo
             \<and> (\<forall>j < length (d # ds). ?ov ((d # ds) ! j) \<le> ?ov ((d # ds) ! i))
             \<and> (\<forall>j < i. ?ov ((d # ds) ! j) < ?ov ((d # ds) ! i)))"
    proof
      assume "\<exists>i < length (d # ds). ?ov ((d # ds) ! i) > bo"
      then obtain i where i: "i < length (d # ds)" "?ov ((d # ds) ! i) > bo" by blast
      with False obtain i' where i': "i = Suc i'" by (cases i) auto
      with i have "\<exists>i < length ds. ?ov (ds ! i) > bo" by auto
      with some obtain k where k: "k < length ds" "bs' = val_at (ds ! k) k_speaker"
        "bo' = ?ov (ds ! k)" "?ov (ds ! k) > bo"
        "\<forall>j < length ds. ?ov (ds ! j) \<le> ?ov (ds ! k)"
        "\<forall>j < k. ?ov (ds ! j) < ?ov (ds ! k)"
        by blast
      have le: "\<forall>j < length (d # ds). ?ov ((d # ds) ! j) \<le> ?ov ((d # ds) ! Suc k)"
      proof (intro allI impI)
        fix j assume "j < length (d # ds)"
        then show "?ov ((d # ds) ! j) \<le> ?ov ((d # ds) ! Suc k)"
          using k(4,5) False by (cases j) auto
      qed
      have lt: "\<forall>j < Suc k. ?ov ((d # ds) ! j) < ?ov ((d # ds) ! Suc k)"
      proof (intro allI impI)
        fix j assume "j < Suc k"
        then show "?ov ((d # ds) ! j) < ?ov ((d # ds) ! Suc k)"
          using k(4,6) False by (cases j) auto
      qed
      show "\<exists>i < length (d # ds). bs' = val_at ((d # ds) ! i) k_speaker \<and> bo' = ?ov ((d # ds) ! i)
             \<and> ?ov ((d # ds) ! i) > bo
             \<and> (\<forall>j < length (d # ds). ?ov ((d # ds) ! j) \<le> ?ov ((d # ds) ! i))
             \<and> (\<forall>j < i. ?ov ((d # ds) ! j) < ?ov ((d # ds) ! i))"
        using k(1,2,3,4) le lt by (intro exI[of _ "Suc k"]) simp
    qed
    from step A B show ?thesis by blast
  next
    case True
    from Cons.IH[OF rest, of "val_at d k_speaker" "?ov d"] obtain bs' bo' where
      run: "for_each (best_speaker_step (PNum ts) (PNum te)) ds (val_at d k_speaker, ?ov d) = Inr (bs', bo')"
      and none: "(\<forall>i < length ds. ?ov (ds ! i) \<le> ?ov d) \<longrightarrow> bs' = val_at d k_speaker \<and> bo' = ?ov d"
      and some: "(\<exists>i < length ds. ?ov (ds ! i) > ?ov d) \<longrightarrow>
          (\<exists>i < length ds. bs' = val_at (ds ! i) k_speaker \<and> bo' = ?ov (ds ! i)
             \<and> ?ov (ds ! i) > ?ov d
             \<and> (\<forall>j < length ds. ?ov (ds ! j) \<le> ?ov (ds ! i))
             \<and> (\<forall>j < i. ?ov (ds ! j) < ?ov (ds ! i)))"
      by blast
    have step: "for_each (best_speaker_step (PNum ts) (PNum te)) (d # ds) (bs, bo) = Inr (bs', bo')"
      using True run by (simp add: best_speaker_step_turn[OF turn] bind_err_def)
    have A: "(\<forall>i < length (d # ds). ?ov ((d # ds) ! i) \<le> bo) \<longrightarrow> bs' = bs \<and> bo' = bo"
      using True by auto
    have B: "\<exists>i < length (d # ds). bs' = val_at ((d # ds) ! i) k_speaker \<and> bo' = ?ov ((d # ds) ! i)
             \<and> ?ov ((d # ds) ! i) > bo
             \<and> (\<forall>j < length (d # ds). ?ov ((d # ds) ! j) \<le> ?ov ((d # ds) ! i))
             \<and> (\<forall>j < i. ?ov ((d # ds) ! j) < ?ov ((d # ds) ! i))"
    proof (cases "\<exists>i < length ds. ?ov (ds ! i) > ?ov d")
      case False
      then have all: "\<forall>i < length ds. ?ov (ds ! i) \<le> ?ov d" by (meson not_le_imp_less)
      with none have eq: "bs' = val_at d k_speaker" "bo' = ?ov d" by blast+
      have le: "\<forall>j < length (d # ds). ?ov ((d # ds) ! j) \<le> ?ov d"
      proof (intro allI impI)
        fix j assume "j < length (d # ds)"
        then show "?ov ((d # ds) ! j) \<le> ?ov d" using all by (cases j) auto
      qed
      show ?thesis using eq True le by (intro exI[of _ 0]) simp
    next
      case True': True
      with some obtain k where k: "k < length ds" "bs' = val_at (ds ! k) k_speaker"
        "bo' = ?ov (ds ! k)" "?ov (ds ! k) > ?ov d"
        "\<forall>j < length ds. ?ov (ds ! j) \<le> ?ov (ds ! k)"
        "\<forall>j < k. ?ov (ds ! j) < ?ov (ds ! k)"
        by blast
      have le: "\<forall>j < length (d # ds). ?ov ((d # ds) ! j) \<le> ?ov ((d # ds) ! Suc k)"
      proof (intro allI impI)
        fix j assume "j < length (d # ds)"
        then show "?ov ((d # ds) ! j) \<le> ?ov ((d # ds) ! Suc k)"
          using k(4,5) by (cases j) auto
      qed
      have lt: "\<forall>j < Suc k. ?ov ((d # ds) ! j) < ?ov ((d # ds) ! Suc k)"
      proof (intro allI impI)
        fix j assume "j < Suc k"
        then show "?ov ((d # ds) ! j) < ?ov ((d # ds) ! Suc k)"
          using k(4,6) by (cases j) auto
      qed
      show ?thesis
        using k(1,2,3,4) True le lt by (intro exI[of _ "Suc k"]) simp
    qed
    from step A B show ?thesis by blast
  qed
qed


lemma key_distinct [simp]:
  "k_start \<noteq> k_end" "k_start \<noteq> k_text" "k_start \<noteq> k_speaker" "k_start \<noteq> k_translation"
  "k_end \<noteq> k_start" "k_end \<noteq> k_text" "k_end \<noteq> k_speaker" "k_end \<noteq> k_translation"
  "k_text \<noteq> k_start" "k_text \<noteq> k_end" "k_text \<noteq> k_speaker" "k_text \<noteq> k_translation"
  "k_speaker \<noteq> k_start" "k_speaker \<noteq> k_end" "k_speaker \<noteq> k_text" "k_speaker \<noteq> k_translation"
  "k_translation \<noteq> k_start" "k_translation \<noteq> k_end" "k_translation \<noteq> k_text"
  "k_translation \<noteq> k_speaker"
  by (simp_all add: k_start_def k_end_def k_text_def k_speaker_def k_translation_def ascii_def)




subsection \<open>merge_segments\<close>

text \<open>The dict literal of \<open>merge_segments\<close>: \<open>start\<close>, \<open>end\<close> and \<open>text\<close> are read from the
  transcription segment, in this order, and a new dict is created.\<close>

definition new_cue :: "addr \<Rightarrow> pyval \<Rightarrow> addr prog" where
  "new_cue seg speaker =
     bind_p (getitem_at seg k_start) (\<lambda>s.
     bind_p (getitem_at seg k_end) (\<lambda>e.
     bind_p (getitem_at seg k_text) (\<lambda>t.
       alloc [k_start \<mapsto> s, k_end \<mapsto> e, k_text \<mapsto> t, k_speaker \<mapsto> speaker])))"

text \<open>The list comprehension of the branch without diarization.\<close>

definition default_step :: "addr \<Rightarrow> addr list \<Rightarrow> addr list prog" where
  "default_step seg acc = bind_p (new_cue seg (PStr SPEAKER_00)) (\<lambda>a. ret (acc @ [a]))"

text \<open>The body of the loop over the transcription segments.\<close>

definition merge_step :: "addr list \<Rightarrow> addr \<Rightarrow> addr list \<Rightarrow> addr list prog" where
  "merge_step diarization_segments trans_seg merged =
     bind_p (getitem_at trans_seg k_start) (\<lambda>s.
     bind_p (getitem_at trans_seg k_end) (\<lambda>e.
     bind_p (\<lambda>h. (find_best_speaker s e (map (\<lambda>a. h ! a) diarization_segments), h)) (\<lambda>speaker.
     bind_p (new_cue trans_seg speaker) (\<lambda>a.
       ret (merged @ [a])))))"

text \<open>\<open>diarization_segments\<close> is a list or \<open>None\<close>; \<open>not diarization_segments\<close> holds for
  \<open>None\<close> and for the empty list.\<close>

definition merge_segments :: "addr list \<Rightarrow> addr list option \<Rightarrow> addr list prog" where
  "merge_segments transcription_segments diarization_segments =
     (if transcription_segments = [] then ret []
      else case diarization_segments of
             None \<Rightarrow> for_each_p default_step transcription_segments []
           | Some ds \<Rightarrow>
               if ds = [] then for_each_p default_step transcription_segments []
               else for_each_p (merge_step ds) transcription_segments [])"

subsection \<open>consolidate_segments\<close>




section \<open>Programs that only create objects\<close>

definition grows :: "'a prog \<Rightarrow> bool" where
  "grows m = (\<forall>h. \<exists>ys. snd (m h) = h @ ys)"

lemma grows_ret: "grows (ret x)"
  by (simp add: grows_def ret_def)

lemma grows_lift: "grows (lift m)"
  by (simp add: grows_def lift_def)

lemma grows_getitem_at: "grows (getitem_at a k)"
  by (simp add: grows_def getitem_at_def)

lemma grows_alloc: "grows (alloc d)"
  by (simp add: grows_def alloc_def)

lemma grows_copy_at: "grows (copy_at a)"
  by (simp add: grows_def copy_at_def)

lemma grows_read: "grows (\<lambda>h. (f h, h))"
  by (simp add: grows_def)

lemma grows_bind:
  assumes "grows m" and "\<And>x. grows (f x)"
  shows "grows (bind_p m f)"
  unfolding grows_def
proof
  fix h
  from assms(1) obtain ys where ys: "snd (m h) = h @ ys" unfolding grows_def by blast
  show "\<exists>zs. snd (bind_p m f h) = h @ zs"
  proof (cases "m h")
    case (Pair r h')
    with ys have h': "h' = h @ ys" by simp
    show ?thesis
    proof (cases r)
      case (Inl e)
      with Pair h' show ?thesis by (simp add: bind_p_def)
    next
      case (Inr x)
      from assms(2)[of x] obtain zs where "snd (f x h') = h' @ zs" unfolding grows_def by blast
      with Pair Inr h' show ?thesis by (simp add: bind_p_def)
    qed
  qed
qed

lemma grows_for_each:
  assumes "\<And>x s. grows (body x s)"
  shows "grows (for_each_p body xs s)"
proof (induction xs arbitrary: s)
  case Nil
  show ?case by (simp add: grows_ret)
next
  case (Cons x xs)
  show ?case by (simp add: grows_bind assms Cons.IH)
qed

lemma grows_new_cue: "grows (new_cue seg sp)"
  unfolding new_cue_def by (intro grows_bind grows_getitem_at grows_alloc)

lemma grows_default_step: "grows (default_step seg acc)"
  unfolding default_step_def by (intro grows_bind grows_new_cue grows_ret)

lemma grows_merge_step: "grows (merge_step ds seg acc)"
  unfolding merge_step_def
  by (intro grows_bind grows_new_cue grows_ret grows_getitem_at grows_read)

lemma grows_merge_segments: "grows (merge_segments texts turns)"
  unfolding merge_segments_def
  by (auto simp: grows_ret intro!: grows_for_each grows_default_step grows_merge_step
      split: option.splits)

section \<open>merge_segments: the cues it creates\<close>

definition has_text_keys :: "pydict \<Rightarrow> bool" where
  "has_text_keys d = (d k_start \<noteq> None \<and> d k_end \<noteq> None \<and> d k_text \<noteq> None)"

definition is_timed_text :: "pydict \<Rightarrow> bool" where
  "is_timed_text d = ((case d k_start of Some (PNum _) \<Rightarrow> True | _ \<Rightarrow> False)
                    \<and> (case d k_end of Some (PNum _) \<Rightarrow> True | _ \<Rightarrow> False)
                    \<and> d k_text \<noteq> None)"

definition cue_of :: "pydict \<Rightarrow> pyval \<Rightarrow> pydict" where
  "cue_of src speaker =
     [k_start \<mapsto> val_at src k_start, k_end \<mapsto> val_at src k_end,
      k_text \<mapsto> val_at src k_text, k_speaker \<mapsto> speaker]"

lemma is_timed_text_keys: "is_timed_text d \<Longrightarrow> has_text_keys d"
  by (auto simp: is_timed_text_def has_text_keys_def split: option.splits)

lemma new_cue_ok:
  assumes "has_text_keys (h ! seg)"
  shows "new_cue seg sp h = (Inr (length h), h @ [cue_of (h ! seg) sp])"
  using assms
  by (auto simp: has_text_keys_def new_cue_def bind_p_def getitem_at_def getitem_def alloc_def
      cue_of_def val_at_def)

lemma default_loop:
  assumes "\<forall>a \<in> set xs. a < length h \<and> has_text_keys (h ! a)"
  shows "for_each_p default_step xs acc h =
           (Inr (acc @ [length h ..< length h + length xs]),
            h @ map (\<lambda>a. cue_of (h ! a) (PStr SPEAKER_00)) xs)"
  using assms
proof (induction xs arbitrary: acc h)
  case Nil
  show ?case by (simp add: ret_def)
next
  case (Cons x xs)
  let ?c = "cue_of (h ! x) (PStr SPEAKER_00)"
  let ?h1 = "h @ [?c]"
  have x: "has_text_keys (h ! x)" using Cons.prems by simp
  have same: "\<forall>a \<in> set xs. ?h1 ! a = h ! a" using Cons.prems by (simp add: nth_append)
  have pre: "\<forall>a \<in> set xs. a < length ?h1 \<and> has_text_keys (?h1 ! a)"
    using Cons.prems same by auto
  have step: "default_step x acc h = (Inr (acc @ [length h]), ?h1)"
    by (simp add: default_step_def bind_p_def new_cue_ok[OF x] ret_def)
  have m: "map (\<lambda>a. cue_of (?h1 ! a) (PStr SPEAKER_00)) xs
         = map (\<lambda>a. cue_of (h ! a) (PStr SPEAKER_00)) xs"
    using same by (intro map_cong) auto
  have u: "[length h ..< length h + length (x # xs)]
         = length h # [length ?h1 ..< length ?h1 + length xs]"
    using upt_conv_Cons[of "length h" "length h + length (x # xs)"] by simp
  show ?case
    using Cons.IH[OF pre, of "acc @ [length h]"]
    by (simp only: for_each_p.simps bind_p_def step m u) simp
qed

definition speaker_for :: "heap \<Rightarrow> addr list \<Rightarrow> addr \<Rightarrow> pyval" where
  "speaker_for h ds a =
     projr (find_best_speaker (val_at (h ! a) k_start) (val_at (h ! a) k_end)
              (map (\<lambda>t. h ! t) ds))"

lemma find_best_speaker_total:
  assumes "\<forall>d \<in> set turns. is_turn d"
  shows "\<exists>v. find_best_speaker (PNum ts) (PNum te) turns = Inr v"
proof -
  from for_each_best_speaker[OF assms, of ts te "PStr UNKNOWN" 0] obtain bs' bo' where
    "for_each (best_speaker_step (PNum ts) (PNum te)) turns (PStr UNKNOWN, 0) = Inr (bs', bo')"
    by blast
  then show ?thesis by (simp add: find_best_speaker_def bind_err_def)
qed

lemma merge_step_ok:
  assumes t: "is_timed_text (h ! x)" and ds: "\<forall>a \<in> set ds. is_turn (h ! a)"
  shows "merge_step ds x acc h = (Inr (acc @ [length h]), h @ [cue_of (h ! x) (speaker_for h ds x)])"
proof -
  from t obtain s e where se: "(h ! x) k_start = Some (PNum s)" "(h ! x) k_end = Some (PNum e)"
    by (auto simp: is_timed_text_def split: option.splits pyval.splits)
  have turns: "\<forall>d \<in> set (map (\<lambda>t. h ! t) ds). is_turn d" using ds by simp
  from find_best_speaker_total[OF turns, of s e] obtain v where
    v: "find_best_speaker (PNum s) (PNum e) (map (\<lambda>t. h ! t) ds) = Inr v" by blast
  have sp: "speaker_for h ds x = v"
    by (simp add: speaker_for_def val_at_def se v)
  show ?thesis
    by (simp add: merge_step_def bind_p_def getitem_at_def getitem_def se v sp
        new_cue_ok[OF is_timed_text_keys[OF t]] ret_def)
qed

lemma speaker_for_cong:
  assumes "h1 ! a = h ! a" and "map (\<lambda>t. h1 ! t) ds = map (\<lambda>t. h ! t) ds"
  shows "speaker_for h1 ds a = speaker_for h ds a"
  unfolding speaker_for_def assms by (rule refl)

lemma merge_loop:
  assumes "\<forall>a \<in> set xs. a < length h \<and> is_timed_text (h ! a)"
    and "\<forall>a \<in> set ds. a < length h \<and> is_turn (h ! a)"
  shows "for_each_p (merge_step ds) xs acc h =
           (Inr (acc @ [length h ..< length h + length xs]),
            h @ map (\<lambda>a. cue_of (h ! a) (speaker_for h ds a)) xs)"
  using assms
proof (induction xs arbitrary: acc h)
  case Nil
  show ?case by (simp add: ret_def)
next
  case (Cons x xs)
  let ?c = "cue_of (h ! x) (speaker_for h ds x)"
  let ?h1 = "h @ [?c]"
  have x: "is_timed_text (h ! x)" using Cons.prems by simp
  have tn: "\<forall>a \<in> set ds. is_turn (h ! a)" using Cons.prems by simp
  have same: "\<forall>a \<in> set xs. ?h1 ! a = h ! a" using Cons.prems by (simp add: nth_append)
  have same_ds: "\<forall>a \<in> set ds. ?h1 ! a = h ! a" using Cons.prems by (simp add: nth_append)
  have pre: "\<forall>a \<in> set xs. a < length ?h1 \<and> is_timed_text (?h1 ! a)"
    using Cons.prems same by auto
  have pre_ds: "\<forall>a \<in> set ds. a < length ?h1 \<and> is_turn (?h1 ! a)"
    using Cons.prems same_ds by auto
  have step: "merge_step ds x acc h = (Inr (acc @ [length h]), ?h1)"
    by (rule merge_step_ok[OF x tn])
  have mds: "map (\<lambda>t. ?h1 ! t) ds = map (\<lambda>t. h ! t) ds"
    using same_ds by (intro map_cong) auto
  have m: "map (\<lambda>a. cue_of (?h1 ! a) (speaker_for ?h1 ds a)) xs
         = map (\<lambda>a. cue_of (h ! a) (speaker_for h ds a)) xs"
  proof (intro map_cong refl)
    fix a assume "a \<in> set xs"
    with same have "?h1 ! a = h ! a" by blast
    then show "cue_of (?h1 ! a) (speaker_for ?h1 ds a) = cue_of (h ! a) (speaker_for h ds a)"
      using speaker_for_cong[OF _ mds, of a] by simp
  qed
  have u: "[length h ..< length h + length (x # xs)]
         = length h # [length ?h1 ..< length ?h1 + length xs]"
    using upt_conv_Cons[of "length h" "length h + length (x # xs)"] by simp
  show ?case
    using Cons.IH[OF pre pre_ds, of "acc @ [length h]"]
    by (simp only: for_each_p.simps bind_p_def step m u) simp
qed


definition copies_text :: "pydict \<Rightarrow> pydict \<Rightarrow> bool" where
  "copies_text cue src =
     (cue k_start = src k_start \<and> cue k_end = src k_end \<and> cue k_text = src k_text)"

lemma appended_nth:
  assumes "i < length xs"
  shows "[length h ..< length h + length xs] ! i = length h + i
       \<and> (h @ map f xs) ! ([length h ..< length h + length xs] ! i) = f (xs ! i)
       \<and> [length h ..< length h + length xs] ! i < length (h @ map f xs)"
  using assms by (simp add: nth_append)

lemma cue_of_copies:
  assumes "has_text_keys src"
  shows "copies_text (cue_of src sp) src" and "cue_of src sp k_speaker = Some sp"
  using assms
  by (auto simp: copies_text_def cue_of_def has_text_keys_def val_at_def)

text \<open>
  Claim C8. Whatever its arguments, \<open>merge_segments\<close> leaves every object of the store
  as it was: the store it returns is the old one with new objects appended. When the
  diarization list is \<open>None\<close> or empty and every transcription segment has its three
  keys, the call returns one new cue per transcription segment, in the same order,
  with \<open>start\<close>, \<open>end\<close> and \<open>text\<close> of its source and the speaker \<open>"SPEAKER_00"\<close>; the
  values under \<open>start\<close> and \<open>end\<close> need not even be numbers there, since no overlap is
  computed. When the diarization list is not empty and the inputs are well formed, the
  call again returns one new cue per transcription segment, in order and with the same
  \<open>start\<close>, \<open>end\<close> and \<open>text\<close>; its speaker is the result of \<open>find_best_speaker\<close>.
\<close>

theorem merge_segments_pure_aligned:
  "(\<exists>ys. snd (merge_segments texts turns h) = h @ ys)
   \<and> ((turns = None \<or> turns = Some [])
        \<and> (\<forall>a \<in> set texts. a < length h \<and> has_text_keys (h ! a)) \<longrightarrow>
       (\<exists>out h'. merge_segments texts turns h = (Inr out, h')
          \<and> take (length h) h' = h \<and> length out = length texts
          \<and> (\<forall>i < length texts.
                length h \<le> out ! i \<and> out ! i < length h'
              \<and> copies_text (h' ! (out ! i)) (h ! (texts ! i))
              \<and> (h' ! (out ! i)) k_speaker = Some (PStr SPEAKER_00))))
   \<and> (\<forall>ds. turns = Some ds \<and> ds \<noteq> []
        \<and> (\<forall>a \<in> set ds. a < length h \<and> is_turn (h ! a))
        \<and> (\<forall>a \<in> set texts. a < length h \<and> is_timed_text (h ! a)) \<longrightarrow>
       (\<exists>out h'. merge_segments texts turns h = (Inr out, h')
          \<and> take (length h) h' = h \<and> length out = length texts
          \<and> (\<forall>i < length texts.
                length h \<le> out ! i \<and> out ! i < length h'
              \<and> copies_text (h' ! (out ! i)) (h ! (texts ! i))
              \<and> find_best_speaker (val_at (h ! (texts ! i)) k_start)
                    (val_at (h ! (texts ! i)) k_end) (map (\<lambda>t. h ! t) ds)
                  = Inr (val_at (h' ! (out ! i)) k_speaker))))"
proof (intro conjI impI allI)
  show "\<exists>ys. snd (merge_segments texts turns h) = h @ ys"
    using grows_merge_segments[of texts turns] unfolding grows_def by blast
next
  assume a: "(turns = None \<or> turns = Some [])
        \<and> (\<forall>a \<in> set texts. a < length h \<and> has_text_keys (h ! a))"
  let ?out = "[length h ..< length h + length texts]"
  let ?f = "\<lambda>a. cue_of (h ! a) (PStr SPEAKER_00)"
  let ?h' = "h @ map ?f texts"
  have wf: "\<forall>a \<in> set texts. a < length h \<and> has_text_keys (h ! a)" using a by blast
  have run: "merge_segments texts turns h = (Inr ?out, ?h')"
  proof (cases "texts = []")
    case True
    then show ?thesis by (simp add: merge_segments_def ret_def)
  next
    case False
    with a show ?thesis
      using default_loop[OF wf, of "[]"] by (auto simp: merge_segments_def)
  qed
  have each: "\<forall>i < length texts.
                length h \<le> ?out ! i \<and> ?out ! i < length ?h'
              \<and> copies_text (?h' ! (?out ! i)) (h ! (texts ! i))
              \<and> (?h' ! (?out ! i)) k_speaker = Some (PStr SPEAKER_00)"
  proof (intro allI impI)
    fix i assume i: "i < length texts"
    then have k: "has_text_keys (h ! (texts ! i))" using wf by simp
    show "length h \<le> ?out ! i \<and> ?out ! i < length ?h'
              \<and> copies_text (?h' ! (?out ! i)) (h ! (texts ! i))
              \<and> (?h' ! (?out ! i)) k_speaker = Some (PStr SPEAKER_00)"
      using appended_nth[OF i, of h ?f] cue_of_copies[OF k, of "PStr SPEAKER_00"] by simp
  qed
  show "\<exists>out h'. merge_segments texts turns h = (Inr out, h')
          \<and> take (length h) h' = h \<and> length out = length texts
          \<and> (\<forall>i < length texts.
                length h \<le> out ! i \<and> out ! i < length h'
              \<and> copies_text (h' ! (out ! i)) (h ! (texts ! i))
              \<and> (h' ! (out ! i)) k_speaker = Some (PStr SPEAKER_00))"
    using run each by (intro exI[of _ ?out] exI[of _ ?h']) simp
next
  fix ds
  assume a: "turns = Some ds \<and> ds \<noteq> []
        \<and> (\<forall>a \<in> set ds. a < length h \<and> is_turn (h ! a))
        \<and> (\<forall>a \<in> set texts. a < length h \<and> is_timed_text (h ! a))"
  let ?out = "[length h ..< length h + length texts]"
  let ?f = "\<lambda>a. cue_of (h ! a) (speaker_for h ds a)"
  let ?h' = "h @ map ?f texts"
  have wf: "\<forall>a \<in> set texts. a < length h \<and> is_timed_text (h ! a)" using a by blast
  have wfd: "\<forall>a \<in> set ds. a < length h \<and> is_turn (h ! a)" using a by blast
  have run: "merge_segments texts turns h = (Inr ?out, ?h')"
  proof (cases "texts = []")
    case True
    then show ?thesis by (simp add: merge_segments_def ret_def)
  next
    case False
    with a show ?thesis
      using merge_loop[OF wf wfd, of "[]"] by (auto simp: merge_segments_def)
  qed
  have each: "\<forall>i < length texts.
                length h \<le> ?out ! i \<and> ?out ! i < length ?h'
              \<and> copies_text (?h' ! (?out ! i)) (h ! (texts ! i))
              \<and> find_best_speaker (val_at (h ! (texts ! i)) k_start)
                    (val_at (h ! (texts ! i)) k_end) (map (\<lambda>t. h ! t) ds)
                  = Inr (val_at (?h' ! (?out ! i)) k_speaker)"
  proof (intro allI impI)
    fix i assume i: "i < length texts"
    let ?src = "h ! (texts ! i)"
    have t: "is_timed_text ?src" using wf i by simp
    then have k: "has_text_keys ?src" by (rule is_timed_text_keys)
    from t obtain s e where se: "?src k_start = Some (PNum s)" "?src k_end = Some (PNum e)"
      by (auto simp: is_timed_text_def split: option.splits pyval.splits)
    have turns: "\<forall>d \<in> set (map (\<lambda>t. h ! t) ds). is_turn d" using wfd by simp
    from find_best_speaker_total[OF turns, of s e] obtain v where
      v: "find_best_speaker (PNum s) (PNum e) (map (\<lambda>t. h ! t) ds) = Inr v" by blast
    have sp: "speaker_for h ds (texts ! i) = v"
      by (simp add: speaker_for_def val_at_def se v)
    have fb: "find_best_speaker (val_at ?src k_start) (val_at ?src k_end) (map (\<lambda>t. h ! t) ds)
              = Inr v"
      by (simp add: val_at_def se v)
    show "length h \<le> ?out ! i \<and> ?out ! i < length ?h'
              \<and> copies_text (?h' ! (?out ! i)) ?src
              \<and> find_best_speaker (val_at ?src k_start) (val_at ?src k_end) (map (\<lambda>t. h ! t) ds)
                  = Inr (val_at (?h' ! (?out ! i)) k_speaker)"
      using appended_nth[OF i, of h ?f] cue_of_copies[OF k, of v] sp fb
      by (simp add: val_at_def)
  qed
  show "\<exists>out h'. merge_segments texts turns h = (Inr out, h')
          \<and> take (length h) h' = h \<and> length out = length texts
          \<and> (\<forall>i < length texts.
                length h \<le> out ! i \<and> out ! i < length h'
              \<and> copies_text (h' ! (out ! i)) (h ! (texts ! i))
              \<and> find_best_speaker (val_at (h ! (texts ! i)) k_start)
                    (val_at (h ! (texts ! i)) k_end) (map (\<lambda>t. h ! t) ds)
                  = Inr (val_at (h' ! (out ! i)) k_speaker))"
    using run each by (intro exI[of _ ?out] exI[of _ ?h']) simp
qed


text \<open>A store with two transcription segments (addresses 0 and 1) and two speaker turns
  (addresses 2 and 3), as in the repository's test of \<open>merge_segments\<close>.\<close>

definition example_store :: heap where
  "example_store =
     [[k_start \<mapsto> PNum 0, k_end \<mapsto> PNum 3, k_text \<mapsto> PStr (ascii ''Hello'')],
      [k_start \<mapsto> PNum 4, k_end \<mapsto> PNum 7, k_text \<mapsto> PStr (ascii ''How are you?'')],
      [k_start \<mapsto> PNum 0, k_end \<mapsto> PNum (7/2), k_speaker \<mapsto> PStr (ascii ''SPEAKER_00'')],
      [k_start \<mapsto> PNum (7/2), k_end \<mapsto> PNum 8, k_speaker \<mapsto> PStr (ascii ''SPEAKER_01'')]]"

theorem merge_segments_pure_aligned_witness:
  "list_all (\<lambda>a. a < length example_store \<and> is_timed_text (example_store ! a)) [0, 1]
   \<and> list_all (\<lambda>a. a < length example_store \<and> is_turn (example_store ! a)) [2, 3]
   \<and> fst (merge_segments [0, 1] (Some [2, 3]) example_store) = Inr [4, 5]
   \<and> take 4 (snd (merge_segments [0, 1] (Some [2, 3]) example_store)) = example_store
   \<and> map (\<lambda>a. (snd (merge_segments [0, 1] (Some [2, 3]) example_store) ! a) k_speaker) [4, 5]
       = [Some (PStr (ascii ''SPEAKER_00'')), Some (PStr (ascii ''SPEAKER_01''))]
   \<and> fst (merge_segments [0, 1] None example_store) = Inr [4, 5]
   \<and> map (\<lambda>a. (snd (merge_segments [0, 1] None example_store) ! a) k_speaker) [4, 5]
       = [Some (PStr SPEAKER_00), Some (PStr SPEAKER_00)]"
  using merge_segments_pure_aligned[of "[0, 1]" "Some [2, 3]" example_store]
    merge_segments_pure_aligned[of "[0, 1]" None example_store]
  by (simp add: example_store_def is_timed_text_def is_turn_def merge_segments_def
      merge_step_def default_step_def new_cue_def bind_p_def getitem_at_def getitem_def
      alloc_def ret_def find_best_speaker_def best_speaker_step_def bind_err_def
      py_max_def py_min_def py_sub_def Let_def)


section \<open>consolidate_segments as a fold\<close>


definition str_at :: "pydict \<Rightarrow> pystr \<Rightarrow> pystr" where
  "str_at d k = (case d k of Some (PStr s) \<Rightarrow> s | _ \<Rightarrow> [])"
















section \<open>Strings of the Python runtime\<close>

text \<open>
  The character classes of the interpreter, by code point. \<open>whitespace\<close> lists the
  characters for which \<open>str.isspace\<close> holds; they are the ones \<open>str.strip()\<close> removes and
  the regular expression class \<open>\s\<close> matches. \<open>decimal_zeros\<close> lists the digit zero of
  every script of Unicode 14 (the version of CPython 3.11); the ten digits of a script are
  consecutive code points, so a character is a decimal digit, with the value \<open>c - z\<close>,
  when it lies in \<open>[z, z + 10)\<close> for one of these \<open>z\<close>. These are the characters the class
  \<open>\d\<close> matches and \<open>int\<close> and \<open>float\<close> read as digits.
\<close>

definition whitespace :: "nat list" where
  "whitespace =
    [9, 10, 11, 12, 13, 28, 29, 30, 31, 32, 133, 160, 5760, 8192, 8193, 8194, 8195,
     8196, 8197, 8198, 8199, 8200, 8201, 8202, 8232, 8233, 8239, 8287, 12288]"

definition is_space :: "nat \<Rightarrow> bool" where
  "is_space c = (c \<in> set whitespace)"

definition decimal_zeros :: "nat list" where
  "decimal_zeros =
    [48, 1632, 1776, 1984, 2406, 2534, 2662, 2790, 2918, 3046, 3174, 3302, 3430, 3558,
     3664, 3792, 3872, 4160, 4240, 6112, 6160, 6470, 6608, 6784, 6800, 6992, 7088,
     7232, 7248, 42528, 43216, 43264, 43472, 43504, 43600, 44016, 65296, 66720, 68912,
     69734, 69872, 69942, 70096, 70384, 70736, 70864, 71248, 71360, 71472, 71904,
     72016, 72784, 73040, 73120, 92768, 92864, 93008, 120782, 120792, 120802, 120812,
     120822, 123200, 123632, 125264, 130032]"

fun digit_in :: "nat list \<Rightarrow> nat \<Rightarrow> nat option" where
  "digit_in [] c = None"
| "digit_in (z # zs) c = (if z \<le> c \<and> c < z + 10 then Some (c - z) else digit_in zs c)"

definition digit_val :: "nat \<Rightarrow> nat option" where
  "digit_val c = digit_in decimal_zeros c"

definition is_decimal :: "nat \<Rightarrow> bool" where
  "is_decimal c = (digit_val c \<noteq> None)"

text \<open>\<open>s.strip()\<close>, for a given class of characters to remove at both ends.\<close>

definition strip_with :: "(nat \<Rightarrow> bool) \<Rightarrow> pystr \<Rightarrow> pystr" where
  "strip_with p s = rev (dropWhile p (rev (dropWhile p s)))"

definition strip :: "pystr \<Rightarrow> pystr" where
  "strip s = strip_with is_space s"

text \<open>\<open>s.split(sep)\<close> for a separator of one character: the result is never empty.\<close>

fun split_on :: "nat \<Rightarrow> pystr \<Rightarrow> pystr list" where
  "split_on sep [] = [[]]"
| "split_on sep (c # cs) =
     (if c = sep then [] # split_on sep cs
      else (case split_on sep cs of p # ps \<Rightarrow> (c # p) # ps | [] \<Rightarrow> [[c]]))"

text \<open>\<open>s.replace(old, new)\<close> for a pattern \<open>old\<close> of one character.\<close>

definition replace_char :: "nat \<Rightarrow> pystr \<Rightarrow> pystr \<Rightarrow> pystr" where
  "replace_char old new s = concat (map (\<lambda>c. if c = old then new else [c]) s)"

text \<open>\<open>sep.join(parts)\<close>.\<close>

fun join :: "pystr \<Rightarrow> pystr list \<Rightarrow> pystr" where
  "join sep [] = []"
| "join sep [p] = p"
| "join sep (p # q # ps) = p @ sep @ join sep (q # ps)"

text \<open>\<open>str(n)\<close> of a natural number: its decimal digits.\<close>

function str_nat :: "nat \<Rightarrow> pystr" where
  "str_nat n = (if n < 10 then [48 + n] else str_nat (n div 10) @ [48 + n mod 10])"
  by pat_completeness auto
termination
  by (relation "measure id") auto

declare str_nat.simps [simp del]

text \<open>Zero padding on the left up to a width.\<close>

definition zfill :: "nat \<Rightarrow> pystr \<Rightarrow> pystr" where
  "zfill w s = replicate (w - length s) 48 @ s"

subsection \<open>int(s) and float(s)\<close>

text \<open>
  Both conversions first remove white space at the two ends: the ASCII characters tab,
  line feed, vertical tab, form feed, carriage return and space, and every white space
  character beyond ASCII (the separators \<open>0x1C\<close> to \<open>0x1F\<close> are not removed). Then comes an
  optional sign and the digits, where a single underscore may stand between two digits.
\<close>

definition is_num_space :: "nat \<Rightarrow> bool" where
  "is_num_space c = (c \<in> set [9, 10, 11, 12, 13, 32] \<or> (128 \<le> c \<and> is_space c))"

text \<open>The digits after the first one: the value read so far and the number of digits.\<close>

fun digits_rest :: "nat \<times> nat \<Rightarrow> pystr \<Rightarrow> (nat \<times> nat) option" where
  "digits_rest acc [] = Some acc"
| "digits_rest acc (c # cs) =
     (if c = 95
      then (case cs of
              [] \<Rightarrow> None
            | d # ds \<Rightarrow> (case digit_val d of
                          None \<Rightarrow> None
                        | Some v \<Rightarrow> digits_rest (fst acc * 10 + v, Suc (snd acc)) ds))
      else (case digit_val c of
              None \<Rightarrow> None
            | Some v \<Rightarrow> digits_rest (fst acc * 10 + v, Suc (snd acc)) cs))"

definition digitpart :: "pystr \<Rightarrow> (nat \<times> nat) option" where
  "digitpart s =
     (case s of
        [] \<Rightarrow> None
      | c # cs \<Rightarrow> (case digit_val c of None \<Rightarrow> None | Some v \<Rightarrow> digits_rest (v, 1) cs))"

text \<open>An optional sign followed by digits, as an integer.\<close>

definition signed_digits :: "pystr \<Rightarrow> int option" where
  "signed_digits t =
     (case t of
        [] \<Rightarrow> None
      | c # cs \<Rightarrow>
          if c = 43 then map_option (\<lambda>r. int (fst r)) (digitpart cs)
          else if c = 45 then map_option (\<lambda>r. - int (fst r)) (digitpart cs)
          else map_option (\<lambda>r. int (fst r)) (digitpart t))"

text \<open>\<open>int(s)\<close>: \<open>None\<close> stands for \<open>ValueError\<close>. Python integers are unbounded; the
  interpreter's limit on the number of digits of a literal is not modelled.\<close>

definition py_int :: "pystr \<Rightarrow> int option" where
  "py_int s = signed_digits (strip_with is_num_space s)"









section \<open>utils/time_utils.py\<close>

text \<open>Floor division and remainder of numbers, \<open>x // y\<close> and \<open>x % y\<close>.\<close>

definition py_floordiv :: "real \<Rightarrow> real \<Rightarrow> int" where
  "py_floordiv x y = \<lfloor>x / y\<rfloor>"

definition py_mod :: "real \<Rightarrow> real \<Rightarrow> real" where
  "py_mod x y = x - y * of_int \<lfloor>x / y\<rfloor>"

text \<open>Rounding to the nearest integer, a tie going to the even one: the rounding of
  \<open>format\<close>.\<close>

definition round_half_even :: "real \<Rightarrow> int" where
  "round_half_even x =
     (let f = \<lfloor>x\<rfloor>; r = x - of_int f in
      if r < 1/2 then f else if r > 1/2 then f + 1 else if even f then f else f + 1)"

text \<open>The format specifications of the f-string: \<open>{hours}\<close>, \<open>{minutes:02d}\<close> and
  \<open>{secs:05.2f}\<close>. Zero padding goes between the sign and the digits.\<close>

definition str_int :: "int \<Rightarrow> pystr" where
  "str_int n = (if n < 0 then 45 # str_nat (nat (- n)) else str_nat (nat n))"

definition format_02d :: "int \<Rightarrow> pystr" where
  "format_02d n = (if n < 0 then 45 # zfill 1 (str_nat (nat (- n))) else zfill 2 (str_nat (nat n)))"

definition format_05_2f :: "real \<Rightarrow> pystr" where
  "format_05_2f x =
     (let cs = nat (round_half_even (\<bar>x\<bar> * 100));
          body = str_nat (cs div 100) @ [46] @ zfill 2 (str_nat (cs mod 100))
      in if x < 0 then 45 # zfill 4 body else zfill 5 body)"

definition seconds_to_ass_time :: "real \<Rightarrow> pystr" where
  "seconds_to_ass_time seconds0 =
     (let seconds = (if seconds0 < 0 then 0 else seconds0);
          hours = py_floordiv seconds 3600;
          minutes = py_floordiv (py_mod seconds 3600) 60;
          secs = py_mod seconds 60
      in str_int hours @ [58] @ format_02d minutes @ [58] @ format_05_2f secs)"



subsection \<open>Decimal digit strings\<close>




























subsection \<open>Formatting and reading back\<close>










lemmas format_defs = seconds_to_ass_time_def py_floordiv_def py_mod_def str_int_def format_02d_def
  format_05_2f_def round_half_even_def zfill_def Let_def ascii_def str_nat.simps





subsection \<open>The strings ass_time_to_seconds accepts\<close>













section \<open>utils/ass_generator.py\<close>

text \<open>\<open>SPEAKER_COLORS\<close>, the style template (the text before the name, between the name
  and the colour, and after the colour) and the header (the text before and after the
  styles).\<close>

definition SPEAKER_COLORS :: "(pystr \<times> pystr) list" where
  "SPEAKER_COLORS =
     [(ascii ''SPEAKER_00'', ascii ''&H00FFFFFF''),
      (ascii ''SPEAKER_01'', ascii ''&H0000FFFF''),
      (ascii ''SPEAKER_02'', ascii ''&H00FF8080''),
      (ascii ''SPEAKER_03'', ascii ''&H008000FF''),
      (ascii ''UNKNOWN'', ascii ''&H00C0C0C0'')]"

definition unknown_color :: pystr where
  "unknown_color = ascii ''&H00C0C0C0''"

definition style_line :: "pystr \<Rightarrow> pystr \<Rightarrow> pystr" where
  "style_line name color =
     ascii ''Style: '' @ name @ ascii '',Arial,48,'' @ color
     @ ascii '',&H000000FF,&H00000000,&H80000000,0,0,0,0,100,100,0,0,1,2,1,2,10,10,10,1''"

definition header_before_styles :: pystr where
  "header_before_styles = ascii
     ''[Script Info]\<newline>Title: Generated Subtitles\<newline>ScriptType: v4.00+\<newline>PlayResX: 1920\<newline>PlayResY: 1080\<newline>WrapStyle: 0\<newline>\<newline>[V4+ Styles]\<newline>Format: Name, Fontname, Fontsize, PrimaryColour, SecondaryColour, OutlineColour, BackColour, Bold, Italic, Underline, StrikeOut, ScaleX, ScaleY, Spacing, Angle, BorderStyle, Outline, Shadow, Alignment, MarginL, MarginR, MarginV, Encoding\<newline>''"

definition header_after_styles :: pystr where
  "header_after_styles = ascii
     ''\<newline>\<newline>[Events]\<newline>Format: Layer, Start, End, Style, Name, MarginL, MarginR, MarginV, Effect, Text\<newline>''"

definition generate_styles :: "pystr list \<Rightarrow> pystr" where
  "generate_styles speakers =
     (let styles = map (\<lambda>speaker.
                     style_line speaker
                       (case map_of SPEAKER_COLORS speaker of
                          Some color \<Rightarrow> color
                        | None \<Rightarrow> unknown_color)) speakers;
          styles' = (if UNKNOWN \<notin> set speakers
                     then styles @ [style_line UNKNOWN unknown_color] else styles)
      in join [10] styles')"

text \<open>\<open>escape_ass_text\<close>: three replacements, one after the other.\<close>

definition escape_ass_text :: "pystr \<Rightarrow> pystr" where
  "escape_ass_text t =
     replace_char 125 [92, 125] (replace_char 123 [92, 123] (replace_char 10 [92, 78] t))"

text \<open>The truth value of a Python value, and the escaping of a value that may fail to be
  a string: a number has no method \<open>replace\<close>.\<close>

definition truthy :: "pyval \<Rightarrow> bool" where
  "truthy v = (case v of PNum x \<Rightarrow> x \<noteq> 0 | PStr s \<Rightarrow> s \<noteq> [])"

definition escape_val :: "pyval \<Rightarrow> error + pystr" where
  "escape_val v = (case v of PStr s \<Rightarrow> Inr (escape_ass_text s) | PNum _ \<Rightarrow> Inl AttributeError)"

text \<open>\<open>seconds_to_ass_time\<close> of a value: the comparison \<open>seconds < 0\<close> raises
  \<open>TypeError\<close> on a string.\<close>

definition time_of_val :: "pyval \<Rightarrow> error + pystr" where
  "time_of_val v = (case v of PNum x \<Rightarrow> Inr (seconds_to_ass_time x) | PStr _ \<Rightarrow> Inl TypeError)"

text \<open>A value inside an f-string.\<close>

definition format_val :: "pyval \<Rightarrow> error + pystr" where
  "format_val v = (case v of PStr s \<Rightarrow> Inr s | PNum _ \<Rightarrow> Inl Unmodelled)"

definition generate_dialogue_line ::
  "pyval \<Rightarrow> pyval \<Rightarrow> pyval \<Rightarrow> pyval \<Rightarrow> pyval \<Rightarrow> error + pystr" where
  "generate_dialogue_line start end speaker text_ja text_zh =
     bind_err (time_of_val start) (\<lambda>start_time.
     bind_err (time_of_val end) (\<lambda>end_time.
     bind_err (if truthy text_zh
               then bind_err (escape_val text_ja) (\<lambda>ja.
                    bind_err (escape_val text_zh) (\<lambda>zh. Inr (ja @ [92, 78] @ zh)))
               else escape_val text_ja) (\<lambda>text.
     bind_err (format_val speaker) (\<lambda>sp.
       Inr (ascii ''Dialogue: 0,'' @ start_time @ [44] @ end_time @ [44] @ sp
            @ ascii '',,0,0,0,,'' @ text)))))"

text \<open>\<open>sorted(set(...))\<close> of the speaker labels. Strings are ordered by code point. A
  set of numbers only is sorted too and then formatted as style names; a set that mixes
  strings and numbers cannot be sorted.\<close>

definition is_str :: "pyval \<Rightarrow> bool" where
  "is_str v = (case v of PStr _ \<Rightarrow> True | PNum _ \<Rightarrow> False)"

definition str_of :: "pyval \<Rightarrow> pystr" where
  "str_of v = (case v of PStr s \<Rightarrow> s | PNum _ \<Rightarrow> [])"

definition sorted_speakers :: "pyval list \<Rightarrow> error + pystr list" where
  "sorted_speakers vs =
     (if list_all is_str vs then Inr (sort (remdups (map str_of vs)))
      else if list_all (\<lambda>v. \<not> is_str v) vs then Inl Unmodelled
      else Inl TypeError)"

text \<open>The body of the loop over the segments; the state is the list \<open>dialogues\<close>.\<close>

definition dialogue_step :: "bool \<Rightarrow> pydict \<Rightarrow> pystr list \<Rightarrow> error + pystr list" where
  "dialogue_step include_translation seg dialogues =
     (let text_ja = get_default seg k_text (PStr []);
          text_zh = (if include_translation then get_default seg k_translation (PStr [])
                     else PStr []);
          speaker = get_default seg k_speaker (PStr UNKNOWN)
      in bind_err (getitem seg k_start) (\<lambda>start.
         bind_err (getitem seg k_end) (\<lambda>end.
         bind_err (generate_dialogue_line start end speaker text_ja text_zh) (\<lambda>dialogue.
           Inr (dialogues @ [dialogue])))))"

text \<open>\<open>generate_ass\<close> writes a file and returns its path; the model returns the text it
  writes. Creating the directory and opening the file are outside the model.\<close>

definition generate_ass :: "pydict list \<Rightarrow> bool \<Rightarrow> error + pystr" where
  "generate_ass segments include_translation =
     (if segments = [] then Inl ValueError
      else
        bind_err (sorted_speakers
                    (map (\<lambda>seg. get_default seg k_speaker (PStr UNKNOWN)) segments)) (\<lambda>speakers.
        let styles = generate_styles speakers in
        bind_err (for_each (dialogue_step include_translation) segments []) (\<lambda>dialogues.
          Inr (header_before_styles @ styles @ header_after_styles
               @ join [10] dialogues @ [10]))))"


subsection \<open>The text of a cue\<close>

text \<open>
  The escaping rule in the words of the specification: a newline becomes the two
  characters \<open>\N\<close>, an opening brace \<open>\{\<close>, a closing brace \<open>\}\<close>, and every other
  character stays. The text of a cue is the escaped original alone when the translation
  is disabled or empty, and otherwise the escaped original, \<open>\N\<close> and the escaped
  translation.
\<close>

definition escape_char :: "nat \<Rightarrow> pystr" where
  "escape_char c =
     (if c = 10 then [92, 78] else if c = 123 then [92, 123] else if c = 125 then [92, 125]
      else [c])"

definition rendered_text :: "bool \<Rightarrow> pystr \<Rightarrow> pystr \<Rightarrow> pystr" where
  "rendered_text include_translation original translated =
     (if include_translation \<and> translated \<noteq> []
      then concat (map escape_char original) @ [92, 78] @ concat (map escape_char translated)
      else concat (map escape_char original))"

text \<open>A segment as \<open>generate_ass\<close> expects it: numeric \<open>start\<close> and \<open>end\<close>, and strings
  under \<open>text\<close>, \<open>translation\<close> and \<open>speaker\<close> where these keys are present.\<close>

definition str_or_absent :: "pyval option \<Rightarrow> bool" where
  "str_or_absent v = (case v of None \<Rightarrow> True | Some (PStr _) \<Rightarrow> True | Some (PNum _) \<Rightarrow> False)"

definition is_render_cue :: "pydict \<Rightarrow> bool" where
  "is_render_cue d = ((case d k_start of Some (PNum _) \<Rightarrow> True | _ \<Rightarrow> False)
                    \<and> (case d k_end of Some (PNum _) \<Rightarrow> True | _ \<Rightarrow> False)
                    \<and> str_or_absent (d k_text) \<and> str_or_absent (d k_translation)
                    \<and> str_or_absent (d k_speaker))"

text \<open>The part of a dialogue line before its text.\<close>

definition dialogue_prefix :: "pydict \<Rightarrow> pystr" where
  "dialogue_prefix d =
     ascii ''Dialogue: 0,'' @ seconds_to_ass_time (num_at d k_start) @ [44]
     @ seconds_to_ass_time (num_at d k_end) @ [44]
     @ str_of (get_default d k_speaker (PStr UNKNOWN)) @ ascii '',,0,0,0,,''"

lemma replace_char_Cons:
  "replace_char old new (c # cs) = (if c = old then new else [c]) @ replace_char old new cs"
  by (simp add: replace_char_def)

lemma replace_char_Nil: "replace_char old new [] = []"
  by (simp add: replace_char_def)

lemma replace_char_append:
  "replace_char old new (a @ b) = replace_char old new a @ replace_char old new b"
  by (simp add: replace_char_def)

lemma escape_ass_text_Cons: "escape_ass_text (c # cs) = escape_char c @ escape_ass_text cs"
  by (simp add: escape_ass_text_def escape_char_def replace_char_Cons replace_char_append
      replace_char_Nil)

lemma escape_ass_text_spec: "escape_ass_text s = concat (map escape_char s)"
proof (induction s)
  case Nil
  show ?case by (simp add: escape_ass_text_def replace_char_Nil)
next
  case (Cons c cs)
  then show ?case by (simp add: escape_ass_text_Cons)
qed

lemma generate_dialogue_line_text:
  "generate_dialogue_line (PNum st) (PNum en) (PStr sp) (PStr ja) (PStr zh)
   = Inr (ascii ''Dialogue: 0,'' @ seconds_to_ass_time st @ [44] @ seconds_to_ass_time en @ [44]
          @ sp @ ascii '',,0,0,0,,'' @ rendered_text True ja zh)"
  by (simp add: generate_dialogue_line_def bind_err_def time_of_val_def truthy_def escape_val_def
      format_val_def rendered_text_def escape_ass_text_spec)

lemma dialogue_step_ok:
  assumes "is_render_cue d"
  shows "dialogue_step incl d acc
         = Inr (acc @ [dialogue_prefix d
                       @ rendered_text incl (str_at d k_text) (str_at d k_translation)])"
proof -
  from assms obtain st en where se: "d k_start = Some (PNum st)" "d k_end = Some (PNum en)"
    by (auto simp: is_render_cue_def split: option.splits pyval.splits)
  from assms have t: "get_default d k_text (PStr []) = PStr (str_at d k_text)"
    and z: "get_default d k_translation (PStr []) = PStr (str_at d k_translation)"
    and p: "get_default d k_speaker (PStr UNKNOWN)
            = PStr (str_of (get_default d k_speaker (PStr UNKNOWN)))"
    by (auto simp: is_render_cue_def str_or_absent_def get_default_def str_at_def str_of_def
        split: option.splits pyval.splits)
  have off: "generate_dialogue_line (PNum st) (PNum en)
               (PStr (str_of (get_default d k_speaker (PStr UNKNOWN))))
               (PStr (str_at d k_text)) (PStr [])
             = Inr (dialogue_prefix d @ rendered_text False (str_at d k_text) (str_at d k_translation))"
    by (simp add: generate_dialogue_line_text rendered_text_def dialogue_prefix_def num_at_def se)
  have on: "generate_dialogue_line (PNum st) (PNum en)
               (PStr (str_of (get_default d k_speaker (PStr UNKNOWN))))
               (PStr (str_at d k_text)) (PStr (str_at d k_translation))
             = Inr (dialogue_prefix d @ rendered_text True (str_at d k_text) (str_at d k_translation))"
    by (simp add: generate_dialogue_line_text dialogue_prefix_def num_at_def se)
  show ?thesis
  proof (cases incl)
    case True
    then show ?thesis
      unfolding dialogue_step_def Let_def t z using p on
      by (simp add: getitem_def se bind_err_def)
  next
    case False
    then show ?thesis
      unfolding dialogue_step_def Let_def t z using p off
      by (simp add: getitem_def se bind_err_def)
  qed
qed

lemma dialogue_loop:
  assumes "list_all is_render_cue ds"
  shows "for_each (dialogue_step incl) ds acc
         = Inr (acc @ map (\<lambda>d. dialogue_prefix d
                               @ rendered_text incl (str_at d k_text) (str_at d k_translation)) ds)"
  using assms
proof (induction ds arbitrary: acc)
  case Nil
  show ?case by simp
next
  case (Cons d ds)
  then have d: "is_render_cue d" and ds: "list_all is_render_cue ds" by simp_all
  show ?case
    using Cons.IH[OF ds] by (simp add: dialogue_step_ok[OF d] bind_err_def)
qed

lemma speaker_is_str:
  assumes "is_render_cue d"
  shows "is_str (get_default d k_speaker (PStr UNKNOWN))"
proof -
  from assms have "str_or_absent (d k_speaker)" by (simp add: is_render_cue_def)
  then show ?thesis
    by (cases "d k_speaker")
       (auto simp: str_or_absent_def get_default_def is_str_def split: pyval.splits)
qed

lemma sorted_speakers_ok:
  assumes "list_all is_render_cue ds"
  shows "sorted_speakers (map (\<lambda>seg. get_default seg k_speaker (PStr UNKNOWN)) ds)
         = Inr (sort (remdups (map (\<lambda>seg. str_of (get_default seg k_speaker (PStr UNKNOWN))) ds)))"
proof -
  have "list_all is_str (map (\<lambda>seg. get_default seg k_speaker (PStr UNKNOWN)) ds)"
    using assms by (simp add: list_all_iff speaker_is_str)
  then show ?thesis by (simp add: sorted_speakers_def comp_def)
qed

lemma generate_ass_content:
  assumes "ds \<noteq> []" and "list_all is_render_cue ds"
  shows "generate_ass ds incl
         = Inr (header_before_styles
                @ generate_styles
                    (sort (remdups (map (\<lambda>seg. str_of (get_default seg k_speaker (PStr UNKNOWN))) ds)))
                @ header_after_styles
                @ join [10] (map (\<lambda>d. dialogue_prefix d
                                   @ rendered_text incl (str_at d k_text) (str_at d k_translation)) ds)
                @ [10])"
  using assms(1)
  by (simp add: generate_ass_def sorted_speakers_ok[OF assms(2)] dialogue_loop[OF assms(2)]
      bind_err_def Let_def)


text \<open>
  Claim C6. \<open>escape_ass_text\<close> maps every character by \<open>escape_char\<close>: a newline to
  \<open>\N\<close>, the two braces to \<open>\{\<close> and \<open>\}\<close>, and any other character to itself; so
  \<open>Hello\<close>, a newline and \<open>{world}\<close> give \<open>Hello\N\{world\}\<close>. For a list of well-formed
  segments that is not empty, \<open>generate_ass\<close> writes, after the header and the styles,
  one line per segment in order, and the text of each line is \<open>rendered_text\<close>: the
  escaped original alone when the translation is disabled or empty (or absent), and
  otherwise the escaped original, \<open>\N\<close> and the escaped translation.
\<close>

theorem rendered_cue_text:
  "escape_ass_text s = concat (map escape_char s)
   \<and> escape_ass_text (ascii ''Hello\<newline>{world}'')
       = ascii ''Hello'' @ [92, 78, 92, 123] @ ascii ''world'' @ [92, 125]
   \<and> (segs \<noteq> [] \<and> list_all is_render_cue segs \<longrightarrow>
        (\<exists>styles. generate_ass segs incl
           = Inr (header_before_styles @ styles @ header_after_styles
                  @ join [10] (map (\<lambda>d. dialogue_prefix d
                                     @ rendered_text incl (str_at d k_text) (str_at d k_translation))
                                segs)
                  @ [10])))"
proof (intro conjI impI)
  show "escape_ass_text s = concat (map escape_char s)" by (rule escape_ass_text_spec)
next
  show "escape_ass_text (ascii ''Hello\<newline>{world}'')
       = ascii ''Hello'' @ [92, 78, 92, 123] @ ascii ''world'' @ [92, 125]"
    by (simp add: escape_ass_text_def replace_char_def ascii_def)
next
  assume "segs \<noteq> [] \<and> list_all is_render_cue segs"
  then show "\<exists>styles. generate_ass segs incl
           = Inr (header_before_styles @ styles @ header_after_styles
                  @ join [10] (map (\<lambda>d. dialogue_prefix d
                                     @ rendered_text incl (str_at d k_text) (str_at d k_translation))
                                segs)
                  @ [10])"
    using generate_ass_content[of segs incl] by blast
qed

text \<open>The two cues of the repository's test of \<open>generate_ass\<close>; the Japanese and Chinese
  texts are given by their code points.\<close>

definition example_translated :: "pydict list" where
  "example_translated =
     [[k_start \<mapsto> PNum (1/2), k_end \<mapsto> PNum 3, k_speaker \<mapsto> PStr (ascii ''SPEAKER_00''),
       k_text \<mapsto> PStr [12371, 12435, 12395, 12385, 12399],
       k_translation \<mapsto> PStr [20320, 22909]],
      [k_start \<mapsto> PNum (7/2), k_end \<mapsto> PNum 6, k_speaker \<mapsto> PStr (ascii ''SPEAKER_01''),
       k_text \<mapsto> PStr [12362, 20803, 27671, 12391, 12377, 12363],
       k_translation \<mapsto> PStr [20320, 22909, 21527]]]"

lemmas render_defs = generate_ass_def sorted_speakers_def dialogue_step_def
  generate_dialogue_line_def bind_err_def time_of_val_def truthy_def escape_val_def format_val_def
  escape_ass_text_def replace_char_def get_default_def getitem_def is_str_def str_of_def Let_def

theorem rendered_cue_text_witness:
  "example_translated \<noteq> [] \<and> list_all is_render_cue example_translated
   \<and> generate_ass example_translated True
       = Inr (header_before_styles
              @ generate_styles [ascii ''SPEAKER_00'', ascii ''SPEAKER_01'']
              @ header_after_styles
              @ ascii ''Dialogue: 0,0:00:00.50,0:00:03.00,SPEAKER_00,,0,0,0,,''
              @ [12371, 12435, 12395, 12385, 12399] @ [92, 78] @ [20320, 22909] @ [10]
              @ ascii ''Dialogue: 0,0:00:03.50,0:00:06.00,SPEAKER_01,,0,0,0,,''
              @ [12362, 20803, 27671, 12391, 12377, 12363] @ [92, 78] @ [20320, 22909, 21527]
              @ [10])
   \<and> generate_ass example_translated False
       = Inr (header_before_styles
              @ generate_styles [ascii ''SPEAKER_00'', ascii ''SPEAKER_01'']
              @ header_after_styles
              @ ascii ''Dialogue: 0,0:00:00.50,0:00:03.00,SPEAKER_00,,0,0,0,,''
              @ [12371, 12435, 12395, 12385, 12399] @ [10]
              @ ascii ''Dialogue: 0,0:00:03.50,0:00:06.00,SPEAKER_01,,0,0,0,,''
              @ [12362, 20803, 27671, 12391, 12377, 12363] @ [10])"
proof -
  have t: "seconds_to_ass_time (1/2) = ascii ''0:00:00.50''"
    "seconds_to_ass_time 3 = ascii ''0:00:03.00''"
    "seconds_to_ass_time (7/2) = ascii ''0:00:03.50''"
    "seconds_to_ass_time 6 = ascii ''0:00:06.00''"
    by (simp_all add: format_defs)
  have w: "list_all is_render_cue example_translated"
    by (simp add: example_translated_def is_render_cue_def str_or_absent_def)
  have a: "generate_ass example_translated True
       = Inr (header_before_styles
              @ generate_styles [ascii ''SPEAKER_00'', ascii ''SPEAKER_01'']
              @ header_after_styles
              @ ascii ''Dialogue: 0,0:00:00.50,0:00:03.00,SPEAKER_00,,0,0,0,,''
              @ [12371, 12435, 12395, 12385, 12399] @ [92, 78] @ [20320, 22909] @ [10]
              @ ascii ''Dialogue: 0,0:00:03.50,0:00:06.00,SPEAKER_01,,0,0,0,,''
              @ [12362, 20803, 27671, 12391, 12377, 12363] @ [92, 78] @ [20320, 22909, 21527]
              @ [10])"
    by (simp add: example_translated_def render_defs t) (simp add: ascii_def)
  have b: "generate_ass example_translated False
       = Inr (header_before_styles
              @ generate_styles [ascii ''SPEAKER_00'', ascii ''SPEAKER_01'']
              @ header_after_styles
              @ ascii ''Dialogue: 0,0:00:00.50,0:00:03.00,SPEAKER_00,,0,0,0,,''
              @ [12371, 12435, 12395, 12385, 12399] @ [10]
              @ ascii ''Dialogue: 0,0:00:03.50,0:00:06.00,SPEAKER_01,,0,0,0,,''
              @ [12362, 20803, 27671, 12391, 12377, 12363] @ [10])"
    by (simp add: example_translated_def render_defs t) (simp add: ascii_def)
  show ?thesis
    using rendered_cue_text[of "[]" example_translated True] w a b
    by (simp add: example_translated_def)
qed


subsection \<open>Cues whose text is empty\<close>

lemma escape_char_nonempty: "escape_char c \<noteq> []"
  by (simp add: escape_char_def)

lemma escaped_empty: "concat (map escape_char s) = [] \<longleftrightarrow> s = []"
  by (cases s) (simp_all add: escape_char_nonempty)

lemma rendered_text_empty:
  "rendered_text incl original translated = []
     \<longleftrightarrow> original = [] \<and> (incl \<longrightarrow> translated = [])"
  by (auto simp: rendered_text_def escaped_empty simp del: concat_eq_Nil_conv)

text \<open>
  Claim C9, as amended. For a list of well-formed segments that is not empty,
  \<open>generate_ass\<close> writes one dialogue line per segment, and the text of a line is empty
  exactly when the original text of the segment is empty (or absent) and, if the
  translation is enabled, its translation is empty (or absent) too. So with the
  translation enabled a cue with a non-empty original text or a non-empty translation
  never has an empty text, but a cue of which both are empty has.
\<close>

theorem rendered_text_empty_iff:
  assumes "segs \<noteq> []" and "list_all is_render_cue segs"
  shows "\<exists>styles lines.
           generate_ass segs incl
             = Inr (header_before_styles @ styles @ header_after_styles @ join [10] lines @ [10])
         \<and> length lines = length segs
         \<and> (\<forall>i < length segs. \<exists>text.
               lines ! i = dialogue_prefix (segs ! i) @ text
             \<and> (text = [] \<longleftrightarrow> str_at (segs ! i) k_text = []
                               \<and> (incl \<longrightarrow> str_at (segs ! i) k_translation = [])))"
proof -
  let ?line = "\<lambda>d. dialogue_prefix d @ rendered_text incl (str_at d k_text) (str_at d k_translation)"
  let ?styles = "generate_styles
                   (sort (remdups (map (\<lambda>seg. str_of (get_default seg k_speaker (PStr UNKNOWN))) segs)))"
  have run: "generate_ass segs incl
             = Inr (header_before_styles @ ?styles @ header_after_styles
                    @ join [10] (map ?line segs) @ [10])"
    by (rule generate_ass_content[OF assms])
  have each: "\<forall>i < length segs. \<exists>text.
               map ?line segs ! i = dialogue_prefix (segs ! i) @ text
             \<and> (text = [] \<longleftrightarrow> str_at (segs ! i) k_text = []
                               \<and> (incl \<longrightarrow> str_at (segs ! i) k_translation = []))"
  proof (intro allI impI)
    fix i assume i: "i < length segs"
    show "\<exists>text.
               map ?line segs ! i = dialogue_prefix (segs ! i) @ text
             \<and> (text = [] \<longleftrightarrow> str_at (segs ! i) k_text = []
                               \<and> (incl \<longrightarrow> str_at (segs ! i) k_translation = []))"
      using i
      by (intro exI[of _ "rendered_text incl (str_at (segs ! i) k_text)
                            (str_at (segs ! i) k_translation)"])
         (simp add: rendered_text_empty)
  qed
  show ?thesis
    using run each
    by (intro exI[of _ ?styles] exI[of _ "map ?line segs"]) simp
qed

text \<open>A cue with an empty text and an empty translation, and a cue with a text.\<close>

definition example_empty_cue :: pydict where
  "example_empty_cue =
     [k_start \<mapsto> PNum 0, k_end \<mapsto> PNum 1, k_speaker \<mapsto> PStr (ascii ''SPEAKER_00''),
      k_text \<mapsto> PStr [], k_translation \<mapsto> PStr []]"

definition example_full_cue :: pydict where
  "example_full_cue =
     [k_start \<mapsto> PNum 0, k_end \<mapsto> PNum 1, k_speaker \<mapsto> PStr (ascii ''SPEAKER_00''),
      k_text \<mapsto> PStr (ascii ''Hello''), k_translation \<mapsto> PStr []]"

lemma example_times:
  "seconds_to_ass_time 0 = ascii ''0:00:00.00''" "seconds_to_ass_time 1 = ascii ''0:00:01.00''"
  by (simp_all add: format_defs)

theorem rendered_text_empty_iff_witness:
  "[example_full_cue] \<noteq> [] \<and> list_all is_render_cue [example_full_cue]
   \<and> generate_ass [example_full_cue] True
       = Inr (header_before_styles @ generate_styles [ascii ''SPEAKER_00''] @ header_after_styles
              @ ascii ''Dialogue: 0,0:00:00.00,0:00:01.00,SPEAKER_00,,0,0,0,,Hello'' @ [10])"
proof -
  have w: "list_all is_render_cue [example_full_cue]"
    by (simp add: example_full_cue_def is_render_cue_def str_or_absent_def)
  have a: "generate_ass [example_full_cue] True
       = Inr (header_before_styles @ generate_styles [ascii ''SPEAKER_00''] @ header_after_styles
              @ ascii ''Dialogue: 0,0:00:00.00,0:00:01.00,SPEAKER_00,,0,0,0,,Hello'' @ [10])"
    by (simp add: example_full_cue_def render_defs example_times) (simp add: ascii_def)
  show ?thesis
    using rendered_text_empty_iff[of "[example_full_cue]" True] w a by simp
qed

text \<open>With the translation enabled, the dialogue line of the cue without text and without
  translation ends after the ninth comma: its text field is empty.\<close>

theorem empty_text_emitted_counterexample:
  "generate_ass [example_empty_cue] True
     = Inr (header_before_styles @ generate_styles [ascii ''SPEAKER_00''] @ header_after_styles
            @ ascii ''Dialogue: 0,0:00:00.00,0:00:01.00,SPEAKER_00,,0,0,0,,'' @ [10])"
  by (simp add: example_empty_cue_def render_defs example_times) (simp add: ascii_def)


section \<open>core/translator.py\<close>

subsection \<open>The regular expression of parse_numbered_response\<close>

text \<open>
  The pattern \<open>^\s*(\d+)[.:\s]+(.+)$\<close> is a sequence of character classes, each
  repeated greedily at least a number of times, followed by the end of the string. An
  item gives the class and the least number of repetitions. \<open>re.match\<close> tries for each
  item the longest run of characters of its class first and gives characters back one by
  one while the rest of the pattern does not match; the last item gives back first. The
  result lists the text each item has matched. \<open>$\<close> matches at the end of the string
  and before a newline that ends the string; \<open>.\<close> matches every character but the
  newline.
\<close>

type_synonym item = "(nat \<Rightarrow> bool) \<times> nat"

definition at_end :: "pystr \<Rightarrow> bool" where
  "at_end s = (s = [] \<or> s = [10])"

text \<open>\<open>backtrack k s lo n\<close>: the item takes the first \<open>n\<close> characters of \<open>s\<close>, then
  \<open>n - 1\<close>, and so on down to \<open>lo\<close>, until the rest of the pattern, \<open>k\<close>, matches what
  is left.\<close>

fun backtrack :: "(pystr \<Rightarrow> pystr list option) \<Rightarrow> pystr \<Rightarrow> nat \<Rightarrow> nat \<Rightarrow> pystr list option" where
  "backtrack k s lo 0 =
     (if lo = 0 then (case k s of Some gs \<Rightarrow> Some ([] # gs) | None \<Rightarrow> None) else None)"
| "backtrack k s lo (Suc n) =
     (if Suc n < lo then None
      else (case k (drop (Suc n) s) of
              Some gs \<Rightarrow> Some (take (Suc n) s # gs)
            | None \<Rightarrow> backtrack k s lo n))"

primrec match_items :: "item list \<Rightarrow> pystr \<Rightarrow> pystr list option" where
  "match_items [] = (\<lambda>s. if at_end s then Some [] else None)"
| "match_items (it # its) =
     (\<lambda>s. backtrack (match_items its) s (snd it) (length (takeWhile (fst it) s)))"

definition is_separator :: "nat \<Rightarrow> bool" where
  "is_separator c = (c = 46 \<or> c = 58 \<or> is_space c)"

definition numbered_pattern :: "item list" where
  "numbered_pattern =
     [(is_space, 0), (is_decimal, 1), (is_separator, 1), (\<lambda>c. c \<noteq> 10, 1)]"

subsection \<open>parse_numbered_response\<close>

text \<open>The body of the loop over the lines; the state is the dict \<open>translations\<close>. Group 1
  is the text of the second item of the pattern and group 2 that of the fourth.\<close>

definition parse_step :: "pystr \<Rightarrow> (int \<rightharpoonup> pystr) \<Rightarrow> error + (int \<rightharpoonup> pystr)" where
  "parse_step line translations =
     (case match_items numbered_pattern (strip line) of
        None \<Rightarrow> Inr translations
      | Some groups \<Rightarrow>
          (case py_int (groups ! 1) of
             None \<Rightarrow> Inl ValueError
           | Some num \<Rightarrow> Inr (translations(num \<mapsto> strip (groups ! 3)))))"

definition parse_numbered_response :: "pystr \<Rightarrow> int \<Rightarrow> error + pystr list" where
  "parse_numbered_response response expected_count =
     bind_err (for_each parse_step (split_on 10 (strip response)) Map.empty) (\<lambda>translations.
       Inr (map (\<lambda>i. case translations i of Some t \<Rightarrow> t | None \<Rightarrow> [])
              [1..expected_count]))"


subsection \<open>What a match returns\<close>





subsection \<open>int of a run of decimal digits\<close>







subsection \<open>The lines of a response\<close>









subsection \<open>translate_batch\<close>

text \<open>
  The translation service is outside the program. A call of \<open>client.messages.create\<close>
  either returns a message, whose content is a list of text blocks, or raises
  \<open>anthropic.RateLimitError\<close>, or another \<open>anthropic.APIError\<close>, or an exception that is
  not an \<open>APIError\<close>. The service is modelled by the outcome of each call, numbered in
  the order in which the calls are made: whatever the service does in a run, some such
  sequence describes it. The world records how many calls have been made, the waits of
  \<open>time.sleep\<close> in order, and the calls of the progress callback.
\<close>

datatype api_error = RateLimitError pystr | APIError pystr

datatype api_outcome = Message "pystr list" | ApiRaises api_error | OtherRaises error

record world =
  calls :: nat
  sleeps :: "real list"
  progress :: "(int \<times> int) list"

text \<open>
  The exceptions that leave \<open>translate_batch\<close>. The first four are the
  \<open>TranslationError\<close>s of the source: the missing key, the missing package, the one
  raised from the last \<open>APIError\<close>, and the one raised after the loop with the number of
  attempts and \<open>last_error\<close>. An exception that is not an \<open>APIError\<close> is not caught and
  leaves the function as it is.
\<close>

datatype trans_error =
    MissingApiKey
  | MissingPackage
  | ApiErrorFinal api_error
  | RetriesExhausted int "api_error option"
  | Uncaught error

text \<open>The loop \<open>for attempt in range(max_retries)\<close>, over the attempts that are left.
  \<open>count\<close> is \<open>len(texts)\<close>.\<close>

fun attempts_loop ::
  "(nat \<Rightarrow> api_outcome) \<Rightarrow> int \<Rightarrow> int \<Rightarrow> real \<Rightarrow> api_error option \<Rightarrow> nat list \<Rightarrow> world
     \<Rightarrow> (trans_error + pystr list) \<times> world" where
  "attempts_loop client count max_retries retry_delay_base last_error [] w =
     (Inl (RetriesExhausted max_retries last_error), w)"
| "attempts_loop client count max_retries retry_delay_base last_error (attempt # rest) w =
     (let w1 = w\<lparr>calls := Suc (calls w)\<rparr>;
          wait = w1\<lparr>sleeps := sleeps w1 @ [retry_delay_base * 2 ^ attempt]\<rparr>
      in case client (calls w) of
           Message content \<Rightarrow>
             (case content of
                [] \<Rightarrow> (Inl (Uncaught IndexError), w1)
              | response_text # _ \<Rightarrow>
                  (case parse_numbered_response response_text count of
                     Inl e \<Rightarrow> (Inl (Uncaught e), w1)
                   | Inr translations \<Rightarrow> (Inr translations, w1)))
         | ApiRaises e \<Rightarrow>
             (case e of
                RateLimitError _ \<Rightarrow>
                  attempts_loop client count max_retries retry_delay_base (Some e) rest wait
              | APIError _ \<Rightarrow>
                  if int attempt < max_retries - 1
                  then attempts_loop client count max_retries retry_delay_base (Some e) rest wait
                  else (Inl (ApiErrorFinal e), w1))
         | OtherRaises e \<Rightarrow> (Inl (Uncaught e), w1))"

text \<open>\<open>installed\<close> tells whether the package \<open>anthropic\<close> can be imported. The texts are
  sent to the service inside a prompt; the model does not build the prompt, since the
  outcome of the call is given.\<close>

definition translate_batch ::
  "(nat \<Rightarrow> api_outcome) \<Rightarrow> bool \<Rightarrow> pyval list \<Rightarrow> pystr \<Rightarrow> int \<Rightarrow> real \<Rightarrow> world
     \<Rightarrow> (trans_error + pystr list) \<times> world" where
  "translate_batch client installed texts api_key max_retries retry_delay_base w =
     (if texts = [] then (Inr [], w)
      else if api_key = [] then (Inl MissingApiKey, w)
      else if \<not> installed then (Inl MissingPackage, w)
      else attempts_loop client (int (length texts)) max_retries retry_delay_base None
             [0 ..< nat max_retries] w)"
















subsection \<open>translate_segments\<close>

text \<open>The list comprehension \<open>[seg["text"] for seg in batch]\<close>.\<close>

definition text_step :: "addr \<Rightarrow> pyval list \<Rightarrow> pyval list prog" where
  "text_step seg texts = bind_p (getitem_at seg k_text) (\<lambda>t. ret (texts @ [t]))"

text \<open>The body of the loop over \<open>zip(batch, translations)\<close>: the segment is copied, the
  copy gets the key \<open>translation\<close>, and the copy is appended to \<open>result\<close>.\<close>

definition attach :: "addr \<times> pystr \<Rightarrow> addr list \<Rightarrow> addr list prog" where
  "attach st result =
     bind_p (copy_at (fst st)) (\<lambda>new_seg.
     bind_p (setitem_at new_seg k_translation (PStr (snd st))) (\<lambda>_.
       ret (result @ [new_seg])))"

text \<open>
  The body of the loop over the batches, for the start index \<open>i\<close> of a batch;
  \<open>batch_size\<close> is positive here. The programs on the store are run inside; an exception
  of theirs leaves the function as it is. \<open>translate_batch\<close> is called with the default
  \<open>retry_delay_base\<close> of 1. \<open>has_callback\<close> tells whether a progress callback was given;
  its calls are recorded in the world.
\<close>

definition batch_step ::
  "(nat \<Rightarrow> api_outcome) \<Rightarrow> bool \<Rightarrow> addr list \<Rightarrow> pystr \<Rightarrow> nat \<Rightarrow> int \<Rightarrow> bool \<Rightarrow> nat
     \<Rightarrow> addr list \<Rightarrow> heap \<Rightarrow> world \<Rightarrow> (trans_error + addr list) \<times> heap \<times> world" where
  "batch_step client installed segments api_key batch_size max_retries has_callback i result h w =
     (let batch = take batch_size (drop i segments) in
      case for_each_p text_step batch [] h of
        (Inl e, h1) \<Rightarrow> (Inl (Uncaught e), h1, w)
      | (Inr texts, h1) \<Rightarrow>
          (case translate_batch client installed texts api_key max_retries 1 w of
             (Inl e, w1) \<Rightarrow> (Inl e, h1, w1)
           | (Inr translations, w1) \<Rightarrow>
               (case for_each_p attach (zip batch translations) result h1 of
                  (Inl e, h2) \<Rightarrow> (Inl (Uncaught e), h2, w1)
                | (Inr result', h2) \<Rightarrow>
                    (Inr result', h2,
                     if has_callback
                     then w1\<lparr>progress := progress w1
                             @ [(min (int i + int batch_size) (int (length segments)),
                                 int (length segments))]\<rparr>
                     else w1))))"

fun batches_loop ::
  "(nat \<Rightarrow> addr list \<Rightarrow> heap \<Rightarrow> world \<Rightarrow> (trans_error + addr list) \<times> heap \<times> world)
     \<Rightarrow> nat list \<Rightarrow> addr list \<Rightarrow> heap \<Rightarrow> world \<Rightarrow> (trans_error + addr list) \<times> heap \<times> world" where
  "batches_loop body [] result h w = (Inr result, h, w)"
| "batches_loop body (i # rest) result h w =
     (case body i result h w of
        (Inl e, h', w') \<Rightarrow> (Inl e, h', w')
      | (Inr result', h', w') \<Rightarrow> batches_loop body rest result' h' w')"

text \<open>\<open>range(0, stop, step)\<close> for a positive step.\<close>

definition range_step :: "nat \<Rightarrow> nat \<Rightarrow> nat list" where
  "range_step stop step = map (\<lambda>j. j * step) [0 ..< (stop + step - 1) div step]"

text \<open>\<open>range\<close> raises \<open>ValueError\<close> for the step 0, and is empty for a negative step.\<close>

definition translate_segments ::
  "(nat \<Rightarrow> api_outcome) \<Rightarrow> bool \<Rightarrow> addr list \<Rightarrow> pystr \<Rightarrow> int \<Rightarrow> int \<Rightarrow> bool
     \<Rightarrow> heap \<Rightarrow> world \<Rightarrow> (trans_error + addr list) \<times> heap \<times> world" where
  "translate_segments client installed segments api_key batch_size max_retries has_callback h w =
     (if segments = [] then (Inr [], h, w)
      else if batch_size = 0 then (Inl (Uncaught ValueError), h, w)
      else if batch_size < 0 then (Inr [], h, w)
      else batches_loop
             (batch_step client installed segments api_key (nat batch_size) max_retries
                has_callback)
             (range_step (length segments) (nat batch_size)) [] h w)"

subsection \<open>The store only grows\<close>

lemma attach_alloc:
  "attach (seg, t) result
   = (\<lambda>h. (Inr (result @ [length h]), h @ [(h ! seg)(k_translation \<mapsto> PStr t)]))"
  by (rule ext) (simp add: attach_def bind_p_def copy_at_def setitem_at_def ret_def)

lemma grows_attach: "grows (attach st result)"
  by (cases st) (simp add: attach_alloc grows_def)

lemma grows_text_step: "grows (text_step seg texts)"
  unfolding text_step_def by (intro grows_bind grows_getitem_at grows_ret)

lemma grows_snd:
  assumes "grows m"
  shows "\<exists>ys. snd (m h) = h @ ys"
  using assms unfolding grows_def by blast

lemma batch_step_grows:
  "\<exists>ys. fst (snd (batch_step client installed segments api_key bs mr cb i result h w)) = h @ ys"
proof -
  let ?batch = "take bs (drop i segments)"
  let ?run = "batch_step client installed segments api_key bs mr cb i result h w"
  obtain r1 h1 where t: "for_each_p text_step ?batch [] h = (r1, h1)"
    by (cases "for_each_p text_step ?batch [] h")
  from grows_snd[OF grows_for_each[of text_step ?batch "[]"], OF grows_text_step, of h] t
  obtain ys where h1: "h1 = h @ ys" by auto
  show ?thesis
  proof (cases r1)
    case (Inl e)
    then have "fst (snd ?run) = h1" by (simp add: batch_step_def t)
    with h1 show ?thesis by simp
  next
    case (Inr texts)
    obtain r2 w1 where b: "translate_batch client installed texts api_key mr 1 w = (r2, w1)"
      by (cases "translate_batch client installed texts api_key mr 1 w")
    show ?thesis
    proof (cases r2)
      case (Inl e)
      then have "fst (snd ?run) = h1" by (simp add: batch_step_def t Inr b)
      with h1 show ?thesis by simp
    next
      case ok: (Inr trs)
      obtain r3 h2 where a: "for_each_p attach (zip ?batch trs) result h1 = (r3, h2)"
        by (cases "for_each_p attach (zip ?batch trs) result h1")
      from grows_snd[OF grows_for_each[of attach "zip ?batch trs" result], OF grows_attach, of h1] a
      obtain zs where h2: "h2 = h1 @ zs" by auto
      have "fst (snd ?run) = h2"
        by (cases r3) (simp_all add: batch_step_def t Inr b ok a)
      with h1 h2 show ?thesis by simp
    qed
  qed
qed

lemma batches_loop_grows:
  assumes "\<And>i result h w. \<exists>ys. fst (snd (body i result h w)) = h @ ys"
  shows "\<exists>ys. fst (snd (batches_loop body is result h w)) = h @ ys"
proof (induction "is" arbitrary: result h w)
  case Nil
  show ?case by simp
next
  case (Cons i rest)
  obtain r h' w' where b: "body i result h w = (r, h', w')" by (cases "body i result h w")
  from assms[of i result h w] b obtain ys where h': "h' = h @ ys" by auto
  show ?case
  proof (cases r)
    case (Inl e)
    then show ?thesis by (simp add: b h')
  next
    case (Inr result')
    from Cons.IH[of result' h' w'] obtain zs where
      "fst (snd (batches_loop body rest result' h' w')) = h' @ zs" by blast
    then show ?thesis by (simp add: b Inr h')
  qed
qed

lemma translate_segments_grows:
  "\<exists>ys. fst (snd (translate_segments client installed segments api_key batch_size mr cb h w))
         = h @ ys"
  unfolding translate_segments_def
  using batches_loop_grows[of "batch_step client installed segments api_key (nat batch_size) mr cb",
      OF batch_step_grows]
  by auto

end
